theory Spec2Isabelle
  imports Complex_Main "HOL-Library.Multiset"
begin

section \<open>The two-dimensional k-d tree of tree.py\<close>

text \<open>
  This theory embeds the classes \<open>KDNode\<close> and \<open>KDTree\<close> of \<open>tree.py\<close>.
  A point is a Python pair of numbers; the coordinates are taken as real numbers, so
  rounding and overflow of machine floats are not part of the model.
  An \<open>Optional[KDNode]\<close> is a value of the datatype below: \<open>NoNode\<close> is Python's
  \<open>None\<close>, and \<open>KDNode\<close> carries the four fields \<open>point\<close>, \<open>data\<close>,
  \<open>left\<close> and \<open>right\<close> in the order in which \<open>__init__\<close> assigns them.
  Every subtree has exactly one owner, so the in-place updates of the source are
  modelled by rebuilding the node that is returned.
\<close>

type_synonym point = "real \<times> real"

datatype 'd kdnode =
  NoNode
  | KDNode (point: point) (data: 'd) (left: "'d kdnode") (right: "'d kdnode")

datatype error = ValueError

text \<open>
  \<open>coord p axis\<close> is the subscript \<open>p[axis]\<close>. Every axis of the source is either
  \<open>depth % 2\<close> or the literal passed on from it, so only 0 and 1 occur.
\<close>

definition coord :: "point \<Rightarrow> nat \<Rightarrow> real" where
  "coord p axis = (if axis = 0 then fst p else snd p)"

subsection \<open>Insertion\<close>

fun insert_recursive :: "'d kdnode \<Rightarrow> point \<Rightarrow> 'd \<Rightarrow> nat \<Rightarrow> 'd kdnode" where
  "insert_recursive NoNode p d depth = KDNode p d NoNode NoNode"
| "insert_recursive (KDNode q e l r) p d depth =
     (let axis = depth mod 2 in
      if coord p axis < coord q axis
      then KDNode q e (insert_recursive l p d (depth + 1)) r
      else KDNode q e l (insert_recursive r p d (depth + 1)))"

subsection \<open>Minimum along an axis\<close>

text \<open>
  \<open>_find_min\<close> raises \<open>ValueError\<close> on \<open>None\<close>; otherwise it returns a node, of which
  the callers read \<open>point\<close> and \<open>data\<close> only, so the model returns that pair.
  The local variables \<open>left_min\<close> and \<open>right_min\<close> may hold \<open>None\<close> and are options.
\<close>

fun pick_smaller :: "nat \<Rightarrow> (point \<times> 'd) option \<Rightarrow> point \<times> 'd \<Rightarrow> point \<times> 'd" where
  "pick_smaller axis None min_node = min_node"
| "pick_smaller axis (Some c) min_node =
     (if coord (fst c) axis < coord (fst min_node) axis then c else min_node)"

fun find_min :: "'d kdnode \<Rightarrow> nat \<Rightarrow> error + (point \<times> 'd)" where
  "find_min NoNode axis = Inl ValueError"
| "find_min (KDNode q e l r) axis =
     (if axis = 0 \<and> l = NoNode then Inr (q, e)
      else if axis = 1 \<and> l = NoNode \<and> r = NoNode then Inr (q, e)
      else if axis = 0 then
        (if l = NoNode then Inr (q, e) else find_min l axis)
      else
        (case (if l \<noteq> NoNode then map_sum id Some (find_min l axis) else Inr None) of
           Inl err \<Rightarrow> Inl err
         | Inr left_min \<Rightarrow>
            (case (if r \<noteq> NoNode then map_sum id Some (find_min r axis) else Inr None) of
               Inl err \<Rightarrow> Inl err
             | Inr right_min \<Rightarrow>
                 Inr (pick_smaller axis right_min (pick_smaller axis left_min (q, e))))))"

subsection \<open>Deletion\<close>

fun delete_recursive :: "'d kdnode \<Rightarrow> point \<Rightarrow> nat \<Rightarrow> error + ('d kdnode \<times> bool)" where
  "delete_recursive NoNode p depth = Inr (NoNode, False)"
| "delete_recursive (KDNode q e l r) p depth =
     (let axis = depth mod 2 in
      if q = p then
        (if l = NoNode \<and> r = NoNode then Inr (NoNode, True)
         else if r \<noteq> NoNode then
           (case find_min r axis of
              Inl err \<Rightarrow> Inl err
            | Inr min_node \<Rightarrow>
               (case delete_recursive r (fst min_node) (depth + 1) of
                  Inl err \<Rightarrow> Inl err
                | Inr (r', _) \<Rightarrow> Inr (KDNode (fst min_node) (snd min_node) l r', True)))
         else
           (case find_min l axis of
              Inl err \<Rightarrow> Inl err
            | Inr min_node \<Rightarrow>
               (case delete_recursive l (fst min_node) (depth + 1) of
                  Inl err \<Rightarrow> Inl err
                | Inr (l', _) \<Rightarrow> Inr (KDNode (fst min_node) (snd min_node) l' r, True))))
      else if coord p axis < coord q axis then
        (case delete_recursive l p (depth + 1) of
           Inl err \<Rightarrow> Inl err
         | Inr (l', deleted) \<Rightarrow> Inr (KDNode q e l' r, deleted))
      else
        (case delete_recursive r p (depth + 1) of
           Inl err \<Rightarrow> Inl err
         | Inr (r', deleted) \<Rightarrow> Inr (KDNode q e l r', deleted)))"

subsection \<open>Range search\<close>

text \<open>The list \<open>result\<close> is appended to in place; the model threads it through.\<close>

definition in_rectangle :: "point \<Rightarrow> point \<Rightarrow> point \<Rightarrow> bool" where
  "in_rectangle min_point max_point q =
     (fst min_point \<le> fst q \<and> fst q \<le> fst max_point \<and>
      snd min_point \<le> snd q \<and> snd q \<le> snd max_point)"

fun range_search_recursive ::
  "'d kdnode \<Rightarrow> point \<Rightarrow> point \<Rightarrow> nat \<Rightarrow> (point \<times> 'd) list \<Rightarrow> (point \<times> 'd) list" where
  "range_search_recursive NoNode min_point max_point depth result = result"
| "range_search_recursive (KDNode q e l r) min_point max_point depth result =
     (let result1 = (if in_rectangle min_point max_point q then result @ [(q, e)] else result);
          axis = depth mod 2;
          result2 = (if coord min_point axis \<le> coord q axis
                     then range_search_recursive l min_point max_point (depth + 1) result1
                     else result1)
      in if coord q axis \<le> coord max_point axis
         then range_search_recursive r min_point max_point (depth + 1) result2
         else result2)"

subsection \<open>Nearest neighbour\<close>

text \<open>
  The running best is the three-element list \<open>[point, data, distance]\<close>, whose entries
  are only ever written together. Its initial value \<open>[None, None, inf]\<close> is the option
  \<open>None\<close>, below which every distance lies.
\<close>

type_synonym 'd best = "(point \<times> 'd \<times> real) option"

definition euclid :: "point \<Rightarrow> point \<Rightarrow> real" where
  "euclid a b = sqrt ((fst a - fst b)\<^sup>2 + (snd a - snd b)\<^sup>2)"

fun below_best :: "real \<Rightarrow> 'd best \<Rightarrow> bool" where
  "below_best x None = True"
| "below_best x (Some (bp, bd, bdist)) = (x < bdist)"

definition improve :: "point \<Rightarrow> 'd best \<Rightarrow> point \<times> 'd \<Rightarrow> 'd best" where
  "improve target best n =
     (let distance = euclid (fst n) target in
      if below_best distance best then Some (fst n, snd n, distance) else best)"

fun nearest_neighbor_recursive :: "'d kdnode \<Rightarrow> point \<Rightarrow> nat \<Rightarrow> 'd best \<Rightarrow> 'd best" where
  "nearest_neighbor_recursive NoNode target depth best = best"
| "nearest_neighbor_recursive (KDNode q e l r) target depth best =
     (let best1 = improve target best (q, e);
          axis = depth mod 2
      in if coord target axis < coord q axis then
           (let best2 = nearest_neighbor_recursive l target (depth + 1) best1
            in if below_best \<bar>coord target axis - coord q axis\<bar> best2
               then nearest_neighbor_recursive r target (depth + 1) best2
               else best2)
         else
           (let best2 = nearest_neighbor_recursive r target (depth + 1) best1
            in if below_best \<bar>coord target axis - coord q axis\<bar> best2
               then nearest_neighbor_recursive l target (depth + 1) best2
               else best2))"

subsection \<open>The class KDTree\<close>

text \<open>
  A \<open>KDTree\<close> object has the single field \<open>root\<close>. Each public method takes the
  object and returns what the method returns together with the object afterwards;
  \<open>insert\<close> returns nothing, so only the object is returned. The two queries assign
  to no field of the tree or of a node, so they hand the object back as they got it.
\<close>

record 'd KDTree =
  root_node :: "'d kdnode"

definition KDTree_init :: "'d KDTree" where
  "KDTree_init = \<lparr>root_node = NoNode\<rparr>"

definition insert_kd :: "'d KDTree \<Rightarrow> point \<Rightarrow> 'd \<Rightarrow> 'd KDTree" where
  "insert_kd self p d = self\<lparr>root_node := insert_recursive (root_node self) p d 0\<rparr>"

definition delete :: "'d KDTree \<Rightarrow> point \<Rightarrow> error + (bool \<times> 'd KDTree)" where
  "delete self p =
     (case delete_recursive (root_node self) p 0 of
        Inl err \<Rightarrow> Inl err
      | Inr (n, deleted) \<Rightarrow> Inr (deleted, self\<lparr>root_node := n\<rparr>))"

definition range_search ::
  "'d KDTree \<Rightarrow> point \<Rightarrow> point \<Rightarrow> (point \<times> 'd) list \<times> 'd KDTree" where
  "range_search self min_point max_point =
     (range_search_recursive (root_node self) min_point max_point 0 [], self)"

definition nearest_neighbor :: "'d KDTree \<Rightarrow> point \<Rightarrow> 'd best \<times> 'd KDTree" where
  "nearest_neighbor self target =
     (if root_node self = NoNode then (None, self)
      else (nearest_neighbor_recursive (root_node self) target 0 None, self))"

subsection \<open>Sequences of updates\<close>

datatype 'd operation = Insert point 'd | Delete point

fun apply_operation :: "'d KDTree \<Rightarrow> 'd operation \<Rightarrow> error + 'd KDTree" where
  "apply_operation self (Insert p d) = Inr (insert_kd self p d)"
| "apply_operation self (Delete p) =
     (case delete self p of Inl err \<Rightarrow> Inl err | Inr (_, self') \<Rightarrow> Inr self')"

fun run :: "'d KDTree \<Rightarrow> 'd operation list \<Rightarrow> error + 'd KDTree" where
  "run self [] = Inr self"
| "run self (x # xs) =
     (case apply_operation self x of Inl err \<Rightarrow> Inl err | Inr self' \<Rightarrow> run self' xs)"

subsection \<open>Contents and the partition invariant\<close>

text \<open>The stored (point, payload) pairs, parent first, then left, then right.\<close>

fun nodes :: "'d kdnode \<Rightarrow> (point \<times> 'd) list" where
  "nodes NoNode = []"
| "nodes (KDNode q e l r) = (q, e) # nodes l @ nodes r"

text \<open>
  The axis-alternating partition invariant of a subtree whose root is at the given
  depth: strictly smaller to the left, greater or equal to the right, along the axis
  \<open>depth mod 2\<close>, and so on below.
\<close>

fun partition_invariant :: "'d kdnode \<Rightarrow> nat \<Rightarrow> bool" where
  "partition_invariant NoNode depth = True"
| "partition_invariant (KDNode q e l r) depth =
     (list_all (\<lambda>n. coord (fst n) (depth mod 2) < coord q (depth mod 2)) (nodes l) \<and>
      list_all (\<lambda>n. coord q (depth mod 2) \<le> coord (fst n) (depth mod 2)) (nodes r) \<and>
      partition_invariant l (depth + 1) \<and>
      partition_invariant r (depth + 1))"

text \<open>
  A rectangle stands for the unbounded one on a tree when it has every stored point
  inside: the comparisons of the search then come out as they do for infinite bounds.
\<close>

definition encloses :: "point \<Rightarrow> point \<Rightarrow> 'd kdnode \<Rightarrow> bool" where
  "encloses min_point max_point t =
     list_all (\<lambda>n. in_rectangle min_point max_point (fst n)) (nodes t)"

text \<open>The stored points, with their multiplicities.\<close>

definition points :: "'d kdnode \<Rightarrow> point multiset" where
  "points t = mset (map fst (nodes t))"

subsection \<open>The visiting order of the nearest-neighbour search\<close>

text \<open>
  The nodes at which \<open>_nearest_neighbor_recursive\<close> computes a distance, in the order
  in which it reaches them. The function follows the same branches as the search and
  records the node where the search compares it with the running best.
\<close>

fun nearest_neighbor_visit :: "'d kdnode \<Rightarrow> point \<Rightarrow> nat \<Rightarrow> 'd best \<Rightarrow> (point \<times> 'd) list" where
  "nearest_neighbor_visit NoNode target depth best = []"
| "nearest_neighbor_visit (KDNode q e l r) target depth best =
     (let best1 = improve target best (q, e);
          axis = depth mod 2
      in if coord target axis < coord q axis then
           (let best2 = nearest_neighbor_recursive l target (depth + 1) best1
            in (q, e) # nearest_neighbor_visit l target (depth + 1) best1 @
               (if below_best \<bar>coord target axis - coord q axis\<bar> best2
                then nearest_neighbor_visit r target (depth + 1) best2
                else []))
         else
           (let best2 = nearest_neighbor_recursive r target (depth + 1) best1
            in (q, e) # nearest_neighbor_visit r target (depth + 1) best1 @
               (if below_best \<bar>coord target axis - coord q axis\<bar> best2
                then nearest_neighbor_visit l target (depth + 1) best2
                else [])))"

subsection \<open>Building a tree from a list\<close>

text \<open>The loop \<open>for point, data in points: tree.insert(point, data)\<close> of the tests.\<close>

definition insert_all :: "'d KDTree \<Rightarrow> (point \<times> 'd) list \<Rightarrow> 'd KDTree" where
  "insert_all self ps = foldl (\<lambda>s n. insert_kd s (fst n) (snd n)) self ps"

subsection \<open>A concrete run\<close>

text \<open>
  Three insertions into the empty tree, followed by the deletion of the first point.
  \<open>after_inserts\<close> and \<open>after_delete\<close> are the trees that the run goes through,
  as the lemmas \<open>insert_all_example\<close> and \<open>run_example\<close> below compute.
\<close>

definition example_points :: "(point \<times> string) list" where
  "example_points = [((0, 0), ''a''), ((5, 5), ''b''), ((1, 6), ''c'')]"

definition example_updates :: "string operation list" where
  "example_updates =
     [Insert (0, 0) ''a'', Insert (5, 5) ''b'', Insert (1, 6) ''c'', Delete (0, 0)]"

definition after_inserts :: "string KDTree" where
  "after_inserts =
     \<lparr>root_node = KDNode (0, 0) ''a'' NoNode
        (KDNode (5, 5) ''b'' NoNode (KDNode (1, 6) ''c'' NoNode NoNode))\<rparr>"

definition after_delete :: "string KDTree" where
  "after_delete =
     \<lparr>root_node = KDNode (5, 5) ''b'' NoNode (KDNode (1, 6) ''c'' NoNode NoNode)\<rparr>"

text \<open>
  A second run, in which the deleted root has a left child only.
\<close>

definition left_only_updates :: "string operation list" where
  "left_only_updates =
     [Insert (5, 5) ''a'', Insert (3, 3) ''b'', Insert (4, 4) ''c'', Delete (5, 5)]"

definition after_left_only :: "string KDTree" where
  "after_left_only =
     \<lparr>root_node = KDNode (3, 3) ''b'' (KDNode (4, 4) ''c'' NoNode NoNode) NoNode\<rparr>"

text \<open>Two stored points at the same distance from the target \<open>(1, 0)\<close>.\<close>

definition tie_example :: "string KDTree" where
  "tie_example =
     \<lparr>root_node = KDNode (0, 0) ''a'' NoNode (KDNode (2, 0) ''b'' NoNode NoNode)\<rparr>"

section \<open>Properties\<close>

subsection \<open>The concrete run\<close>

lemma insert_all_example: "insert_all KDTree_init example_points = after_inserts"
  by (simp add: insert_all_def example_points_def after_inserts_def insert_kd_def
      KDTree_init_def coord_def)

lemma run_example: "run KDTree_init example_updates = Inr after_delete"
  by (simp add: example_updates_def after_delete_def insert_kd_def KDTree_init_def
      coord_def delete_def)

text \<open>
  In the second run \<open>find_min\<close> is asked for the minimum along axis 0 of the left
  subtree and does return it, \<open>(3, 3)\<close>; the rest of that subtree, \<open>(4, 4)\<close>, stays
  to the left of the root that now holds \<open>(3, 3)\<close>.
\<close>

lemma run_left_only:
  "run KDTree_init left_only_updates = Inr after_left_only \<and>
   \<not> partition_invariant (root_node after_left_only) 0"
  by (simp add: left_only_updates_def after_left_only_def insert_kd_def KDTree_init_def
      coord_def delete_def)

lemma sqrt_16: "sqrt 16 = 4"
  using real_sqrt_abs [of 4] by simp

subsection \<open>Deletion raises nothing\<close>

lemma find_min_Inr: "t \<noteq> NoNode \<Longrightarrow> \<exists>m. find_min t axis = Inr m"
proof (induction t)
  case NoNode
  then show ?case by simp
next
  case (KDNode q e l r)
  show ?case
  proof (cases "axis = 0")
    case True
    with KDNode.IH(1) show ?thesis by (cases "l = NoNode") auto
  next
    case False
    have L: "\<exists>x. (if l \<noteq> NoNode then map_sum id Some (find_min l axis) else Inr None) = Inr x"
      using KDNode.IH(1) by (cases "l = NoNode") auto
    have R: "\<exists>x. (if r \<noteq> NoNode then map_sum id Some (find_min r axis) else Inr None) = Inr x"
      using KDNode.IH(2) by (cases "r = NoNode") auto
    from L R obtain x y where
      "(if l \<noteq> NoNode then map_sum id Some (find_min l axis) else Inr None) = Inr x"
      "(if r \<noteq> NoNode then map_sum id Some (find_min r axis) else Inr None) = Inr y"
      by blast
    with False show ?thesis by (simp del: pick_smaller.simps split_paired_Ex)
  qed
qed

lemma delete_recursive_Inr: "\<exists>res. delete_recursive t p depth = Inr res"
proof (induction t arbitrary: p depth)
  case NoNode
  then show ?case by auto
next
  case (KDNode q e l r)
  obtain l1 b1 where l1: "delete_recursive l p (depth + 1) = Inr (l1, b1)"
    using KDNode.IH(1)[of p "depth + 1"] by auto
  obtain r1 c1 where r1: "delete_recursive r p (depth + 1) = Inr (r1, c1)"
    using KDNode.IH(2)[of p "depth + 1"] by auto
  show ?case
  proof (cases "q = p")
    case False
    then show ?thesis using l1 r1 by (auto simp: Let_def)
  next
    case True
    show ?thesis
    proof (cases "r = NoNode")
      case False
      then obtain m where m: "find_min r (depth mod 2) = Inr m" using find_min_Inr by blast
      obtain r2 c2 where "delete_recursive r (fst m) (depth + 1) = Inr (r2, c2)"
        using KDNode.IH(2)[of "fst m" "depth + 1"] by auto
      with m True False show ?thesis by (auto simp: Let_def)
    next
      case rN: True
      show ?thesis
      proof (cases "l = NoNode")
        case True
        with rN \<open>q = p\<close> show ?thesis by auto
      next
        case False
        then obtain m where m: "find_min l (depth mod 2) = Inr m" using find_min_Inr by blast
        obtain l2 c2 where "delete_recursive l (fst m) (depth + 1) = Inr (l2, c2)"
          using KDNode.IH(1)[of "fst m" "depth + 1"] by auto
        with m rN False \<open>q = p\<close> show ?thesis by (auto simp: Let_def)
      qed
    qed
  qed
qed

subsection \<open>Deleting a point that is not stored\<close>

lemma delete_recursive_absent:
  "p \<notin> fst ` set (nodes t) \<Longrightarrow> delete_recursive t p depth = Inr (t, False)"
proof (induction t arbitrary: depth)
  case NoNode
  then show ?case by simp
next
  case (KDNode q e l r)
  from KDNode.prems have "q \<noteq> p" "p \<notin> fst ` set (nodes l)" "p \<notin> fst ` set (nodes r)"
    by (auto simp: image_Un)
  then show ?case using KDNode.IH(1)[of "depth + 1"] KDNode.IH(2)[of "depth + 1"]
    by (simp add: Let_def)
qed

subsection \<open>Insertion\<close>

lemma length_nodes_insert:
  "length (nodes (insert_recursive t p d depth)) = Suc (length (nodes t))"
  by (induction t arbitrary: depth) (auto simp: Let_def)

lemma set_nodes_insert:
  "set (nodes (insert_recursive t p d depth)) = insert (p, d) (set (nodes t))"
  by (induction t arbitrary: depth) (auto simp: Let_def)

lemma partition_invariant_insert:
  "partition_invariant t depth \<Longrightarrow> partition_invariant (insert_recursive t p d depth) depth"
  by (induction t arbitrary: depth) (auto simp: Let_def list_all_iff set_nodes_insert)

lemma set_nodes_insert_all:
  "set (nodes (root_node (insert_all self ps))) = set (nodes (root_node self)) \<union> set ps"
  unfolding insert_all_def
  by (induction ps arbitrary: self) (auto simp: insert_kd_def set_nodes_insert)

lemma length_nodes_insert_all:
  "length (nodes (root_node (insert_all self ps))) = length (nodes (root_node self)) + length ps"
  unfolding insert_all_def
  by (induction ps arbitrary: self) (auto simp: insert_kd_def length_nodes_insert)

lemma partition_invariant_insert_all:
  "partition_invariant (root_node self) 0 \<Longrightarrow> partition_invariant (root_node (insert_all self ps)) 0"
  unfolding insert_all_def
  by (induction ps arbitrary: self) (auto simp: insert_kd_def partition_invariant_insert)

subsection \<open>Range search\<close>

lemma range_search_recursive_inverted:
  "fst max_point < fst min_point \<or> snd max_point < snd min_point \<Longrightarrow>
   range_search_recursive t min_point max_point depth result = result"
  by (induction t arbitrary: depth result) (auto simp: Let_def in_rectangle_def)

lemma in_rectangle_coord_lo:
  "in_rectangle lo hi q \<Longrightarrow> coord lo axis \<le> coord q axis"
  by (auto simp: in_rectangle_def coord_def)

lemma in_rectangle_coord_hi:
  "in_rectangle lo hi q \<Longrightarrow> coord q axis \<le> coord hi axis"
  by (auto simp: in_rectangle_def coord_def)

lemma range_search_recursive_filter:
  "partition_invariant t depth \<Longrightarrow>
   range_search_recursive t lo hi depth result =
     result @ filter (\<lambda>n. in_rectangle lo hi (fst n)) (nodes t)"
proof (induction t arbitrary: depth result)
  case NoNode
  then show ?case by simp
next
  case (KDNode q e l r)
  let ?axis = "depth mod 2"
  let ?P = "\<lambda>n. in_rectangle lo hi (fst n)"
  from KDNode.prems have
    less: "\<forall>n \<in> set (nodes l). coord (fst n) ?axis < coord q ?axis" and
    geq: "\<forall>n \<in> set (nodes r). coord q ?axis \<le> coord (fst n) ?axis" and
    il: "partition_invariant l (depth + 1)" and ir: "partition_invariant r (depth + 1)"
    by (auto simp: list_all_iff)
  have L: "(if coord lo ?axis \<le> coord q ?axis
            then range_search_recursive l lo hi (depth + 1) acc else acc)
           = acc @ filter ?P (nodes l)" for acc
  proof (cases "coord lo ?axis \<le> coord q ?axis")
    case True
    then show ?thesis using KDNode.IH(1)[OF il] by simp
  next
    case False
    have "\<not> ?P n" if "n \<in> set (nodes l)" for n
      using less that False in_rectangle_coord_lo[of lo hi "fst n" ?axis] by fastforce
    then have "filter ?P (nodes l) = []" by (simp add: filter_empty_conv)
    with False show ?thesis by simp
  qed
  have R: "(if coord q ?axis \<le> coord hi ?axis
            then range_search_recursive r lo hi (depth + 1) acc else acc)
           = acc @ filter ?P (nodes r)" for acc
  proof (cases "coord q ?axis \<le> coord hi ?axis")
    case True
    then show ?thesis using KDNode.IH(2)[OF ir] by simp
  next
    case False
    have "\<not> ?P n" if "n \<in> set (nodes r)" for n
      using geq that False in_rectangle_coord_hi[of lo hi "fst n" ?axis] by fastforce
    then have "filter ?P (nodes r) = []" by (simp add: filter_empty_conv)
    with False show ?thesis by simp
  qed
  show ?case by (simp add: Let_def L R del: range_search_recursive.simps(2)) (simp add: Let_def L R)
qed

lemma range_search_recursive_encloses:
  "encloses min_point max_point t \<Longrightarrow>
   range_search_recursive t min_point max_point depth result = result @ nodes t"
proof (induction t arbitrary: depth result)
  case NoNode
  then show ?case by simp
next
  case (KDNode q e l r)
  from KDNode.prems have q: "in_rectangle min_point max_point q"
    and l: "encloses min_point max_point l" and r: "encloses min_point max_point r"
    by (auto simp: encloses_def)
  show ?case
    using q in_rectangle_coord_lo [OF q, of "depth mod 2"] in_rectangle_coord_hi [OF q, of "depth mod 2"]
      KDNode.IH(1) [OF l] KDNode.IH(2) [OF r]
    by (simp add: Let_def)
qed

lemma encloses_insert:
  "encloses min_point max_point (insert_recursive t p d depth) \<Longrightarrow> encloses min_point max_point t"
  by (simp add: encloses_def list_all_iff set_nodes_insert)

subsection \<open>The minimum along the second axis\<close>

lemma pick_smaller_cases:
  "pick_smaller axis c m = m \<or> c = Some (pick_smaller axis c m)"
  by (cases c) auto

lemma pick_smaller_le:
  "coord (fst (pick_smaller axis c m)) axis \<le> coord (fst m) axis"
  by (cases c) auto

lemma pick_smaller_le_Some:
  "coord (fst (pick_smaller axis (Some c) m)) axis \<le> coord (fst c) axis"
  by auto

lemma find_min_member: "find_min t axis = Inr m \<Longrightarrow> m \<in> set (nodes t)"
proof (induction t arbitrary: m)
  case NoNode
  then show ?case by simp
next
  case (KDNode q e l r)
  show ?case
  proof (cases "axis = 0")
    case True
    with KDNode.prems KDNode.IH(1) show ?thesis by (cases "l = NoNode") auto
  next
    case False
    obtain x where x: "(if l \<noteq> NoNode then map_sum id Some (find_min l axis) else Inr None) = Inr x"
      using find_min_Inr[of l axis] by (cases "l = NoNode") auto
    obtain y where y: "(if r \<noteq> NoNode then map_sum id Some (find_min r axis) else Inr None) = Inr y"
      using find_min_Inr[of r axis] by (cases "r = NoNode") auto
    have xm: "x = Some c \<Longrightarrow> c \<in> set (nodes l)" for c
      using x KDNode.IH(1)[of c] by (cases "l = NoNode"; cases "find_min l axis") auto
    have ym: "y = Some c \<Longrightarrow> c \<in> set (nodes r)" for c
      using y KDNode.IH(2)[of c] by (cases "r = NoNode"; cases "find_min r axis") auto
    have m: "m = (q, e) \<or> m = pick_smaller axis y (pick_smaller axis x (q, e))"
      using KDNode.prems False x y by (auto simp del: pick_smaller.simps split: if_splits)
    have "pick_smaller axis x (q, e) \<in> set (nodes (KDNode q e l r))"
      using pick_smaller_cases[of axis x "(q, e)"] xm[of "pick_smaller axis x (q, e)"]
      by (auto simp del: pick_smaller.simps)
    then have "pick_smaller axis y (pick_smaller axis x (q, e)) \<in> set (nodes (KDNode q e l r))"
      using pick_smaller_cases[of axis y "pick_smaller axis x (q, e)"]
        ym[of "pick_smaller axis y (pick_smaller axis x (q, e))"]
      by (auto simp del: pick_smaller.simps)
    with m show ?thesis by auto
  qed
qed

lemma find_min_axis1_least:
  "find_min t (Suc 0) = Inr m \<Longrightarrow> n \<in> set (nodes t) \<Longrightarrow> snd (fst m) \<le> snd (fst n)"
proof (induction t arbitrary: m n)
  case NoNode
  then show ?case by simp
next
  case (KDNode q e l r)
  let ?a = "Suc 0"
  show ?case
  proof (cases "l = NoNode \<and> r = NoNode")
    case True
    with KDNode.prems show ?thesis by auto
  next
    case False
    obtain x where x: "(if l \<noteq> NoNode then map_sum id Some (find_min l ?a) else Inr None) = Inr x"
      using find_min_Inr[of l ?a] by (cases "l = NoNode") auto
    obtain y where y: "(if r \<noteq> NoNode then map_sum id Some (find_min r ?a) else Inr None) = Inr y"
      using find_min_Inr[of r ?a] by (cases "r = NoNode") auto
    let ?m1 = "pick_smaller ?a x (q, e)"
    have m: "m = pick_smaller ?a y ?m1"
      using KDNode.prems(1) False x y by (auto simp del: pick_smaller.simps)
    have m_le_m1: "coord (fst m) ?a \<le> coord (fst ?m1) ?a"
      unfolding m by (rule pick_smaller_le)
    have m1_le_q: "coord (fst ?m1) ?a \<le> coord q ?a"
      using pick_smaller_le[of ?a x "(q, e)"] by simp
    from KDNode.prems(2) consider "n = (q, e)" | "n \<in> set (nodes l)" | "n \<in> set (nodes r)"
      by auto
    then have "coord (fst m) ?a \<le> coord (fst n) ?a"
    proof cases
      case 1
      with m_le_m1 m1_le_q show ?thesis by simp
    next
      case 2
      then have "l \<noteq> NoNode" by auto
      with x obtain c where c: "find_min l ?a = Inr c" "x = Some c"
        by (cases "find_min l ?a") auto
      have "coord (fst c) ?a \<le> coord (fst n) ?a"
        using KDNode.IH(1)[OF c(1) 2] by (simp add: coord_def)
      moreover have "coord (fst ?m1) ?a \<le> coord (fst c) ?a"
        unfolding c(2) by (rule pick_smaller_le_Some)
      ultimately show ?thesis using m_le_m1 by linarith
    next
      case 3
      then have "r \<noteq> NoNode" by auto
      with y obtain c where c: "find_min r ?a = Inr c" "y = Some c"
        by (cases "find_min r ?a") auto
      have "coord (fst c) ?a \<le> coord (fst n) ?a"
        using KDNode.IH(2)[OF c(1) 3] by (simp add: coord_def)
      moreover have "coord (fst m) ?a \<le> coord (fst c) ?a"
        unfolding m c(2) by (rule pick_smaller_le_Some)
      ultimately show ?thesis by linarith
    qed
    then show ?thesis by (simp add: coord_def)
  qed
qed

subsection \<open>The running best of the nearest-neighbour search\<close>

lemma nearest_neighbor_recursive_foldl:
  "nearest_neighbor_recursive t target depth best =
     foldl (improve target) best (nearest_neighbor_visit t target depth best)"
proof (induction t arbitrary: depth best)
  case NoNode
  then show ?case by simp
next
  case (KDNode q e l r)
  show ?case
    by (simp add: Let_def KDNode.IH[symmetric])
qed

lemma improve_None: "improve target None x = Some (fst x, snd x, euclid (fst x) target)"
  by (simp add: improve_def)

lemma improve_Some:
  "improve target (Some (q0, e0, d0)) x =
     (if euclid (fst x) target < d0 then Some (fst x, snd x, euclid (fst x) target)
      else Some (q0, e0, d0))"
  by (simp add: improve_def)

lemma foldl_improve_None: "foldl (improve target) None vs = None \<longleftrightarrow> vs = []"
proof (induction vs rule: rev_induct)
  case Nil
  then show ?case by simp
next
  case (snoc x xs)
  then show ?case by (cases "foldl (improve target) None xs") (auto simp: improve_None improve_Some)
qed

lemma foldl_improve_first_least:
  "foldl (improve target) None vs = Some (q, e, d) \<Longrightarrow>
   \<exists>i < length vs. vs ! i = (q, e) \<and> d = euclid q target \<and>
      (\<forall>j < i. d < euclid (fst (vs ! j)) target) \<and>
      (\<forall>j < length vs. d \<le> euclid (fst (vs ! j)) target)"
proof (induction vs arbitrary: q e d rule: rev_induct)
  case Nil
  then show ?case by simp
next
  case (snoc x xs)
  let ?dx = "euclid (fst x) target"
  show ?case
  proof (cases "foldl (improve target) None xs")
    case None
    then have xs: "xs = []" by (simp add: foldl_improve_None)
    with snoc.prems have "x = (q, e)" "d = euclid q target"
      by (auto simp: improve_None)
    with xs show ?thesis by simp
  next
    case (Some b)
    obtain q0 e0 d0 where b: "b = (q0, e0, d0)" by (cases b) auto
    from snoc.IH[OF Some[unfolded b]] obtain i where i:
      "i < length xs" "xs ! i = (q0, e0)" "d0 = euclid q0 target"
      "\<forall>j < i. d0 < euclid (fst (xs ! j)) target"
      "\<forall>j < length xs. d0 \<le> euclid (fst (xs ! j)) target" by blast
    from snoc.prems Some b have step: "improve target (Some (q0, e0, d0)) x = Some (q, e, d)"
      by simp
    show ?thesis
    proof (cases "?dx < d0")
      case True
      with step have r: "x = (q, e)" "d = ?dx"
        by (auto simp: improve_Some)
      have "\<forall>j < length xs. d < euclid (fst ((xs @ [x]) ! j)) target"
        using i(5) True r by (auto simp: nth_append)
      moreover have "\<forall>j < length (xs @ [x]). d \<le> euclid (fst ((xs @ [x]) ! j)) target"
        using i(5) True r by (auto simp: nth_append less_Suc_eq)
      ultimately show ?thesis using r
        by (intro exI[of _ "length xs"]) auto
    next
      case False
      with step have r: "q = q0" "e = e0" "d = d0"
        by (auto simp: improve_Some)
      have "\<forall>j < length (xs @ [x]). d \<le> euclid (fst ((xs @ [x]) ! j)) target"
        using i(5) False r by (auto simp: nth_append less_Suc_eq)
      moreover have "\<forall>j < i. d < euclid (fst ((xs @ [x]) ! j)) target"
        using i(1,4) r by (auto simp: nth_append)
      moreover have "(xs @ [x]) ! i = (q, e)" using i(1,2) r by (simp add: nth_append)
      ultimately show ?thesis using i(1,3) r
        by (intro exI[of _ i]) auto
    qed
  qed
qed

subsection \<open>Deleting a stored point from a tree that satisfies the invariant\<close>

text \<open>
  As long as the invariant holds, a stored point is found: the deletion returns true and
  the tree afterwards stores the same points but for one occurrence of the deleted one.
\<close>

lemma points_simps [simp]:
  "points NoNode = {#}"
  "points (KDNode q e l r) = add_mset q (points l + points r)"
  by (simp_all add: points_def)

lemma in_points: "p \<in># points t \<longleftrightarrow> p \<in> fst ` set (nodes t)"
  by (simp add: points_def)

lemma delete_recursive_present:
  "partition_invariant t depth \<Longrightarrow> p \<in># points t \<Longrightarrow>
   \<exists>t'. delete_recursive t p depth = Inr (t', True) \<and> add_mset p (points t') = points t"
proof (induction t arbitrary: p depth)
  case NoNode
  then show ?case by simp
next
  case (KDNode q e l r)
  let ?axis = "depth mod 2"
  from KDNode.prems(1) have
    less: "\<forall>n \<in> set (nodes l). coord (fst n) ?axis < coord q ?axis" and
    geq: "\<forall>n \<in> set (nodes r). coord q ?axis \<le> coord (fst n) ?axis" and
    il: "partition_invariant l (depth + 1)" and ir: "partition_invariant r (depth + 1)"
    by (auto simp: list_all_iff)
  show ?case
  proof (cases "q = p")
    case True
    show ?thesis
    proof (cases "r = NoNode")
      case False
      obtain m where m: "find_min r ?axis = Inr m" using find_min_Inr [OF False] by blast
      then have "fst m \<in># points r" using find_min_member [OF m] by (simp add: in_points)
      from KDNode.IH(2) [OF ir this] obtain r' where
        r': "delete_recursive r (fst m) (depth + 1) = Inr (r', True)"
          "add_mset (fst m) (points r') = points r" by blast
      from r'(2) have "add_mset p (points (KDNode (fst m) (snd m) l r')) = points (KDNode q e l r)"
        using True by (simp add: union_commute [of "points l"] flip: r'(2))
      with True False m r'(1) show ?thesis by (simp add: Let_def)
    next
      case rN: True
      show ?thesis
      proof (cases "l = NoNode")
        case True
        with rN \<open>q = p\<close> show ?thesis by simp
      next
        case False
        obtain m where m: "find_min l ?axis = Inr m" using find_min_Inr [OF False] by blast
        then have "fst m \<in># points l" using find_min_member [OF m] by (simp add: in_points)
        from KDNode.IH(1) [OF il this] obtain l' where
          l': "delete_recursive l (fst m) (depth + 1) = Inr (l', True)"
            "add_mset (fst m) (points l') = points l" by blast
        from l'(2) have "add_mset p (points (KDNode (fst m) (snd m) l' r)) = points (KDNode q e l r)"
          using \<open>q = p\<close> by (simp flip: l'(2))
        with \<open>q = p\<close> rN False m l'(1) show ?thesis by (simp add: Let_def)
      qed
    qed
  next
    case False
    with KDNode.prems(2) have mem: "p \<in># points l \<or> p \<in># points r" by auto
    show ?thesis
    proof (cases "coord p ?axis < coord q ?axis")
      case True
      with geq have "p \<notin># points r" by (fastforce simp: in_points)
      with mem have "p \<in># points l" by simp
      from KDNode.IH(1) [OF il this] obtain l' where
        "delete_recursive l p (depth + 1) = Inr (l', True)" "add_mset p (points l') = points l"
        by blast
      with False True show ?thesis by (simp add: Let_def flip: \<open>add_mset p (points l') = points l\<close>)
    next
      case ge: False
      with less have "p \<notin># points l" by (fastforce simp: in_points)
      with mem have "p \<in># points r" by simp
      from KDNode.IH(2) [OF ir this] obtain r' where
        "delete_recursive r p (depth + 1) = Inr (r', True)" "add_mset p (points r') = points r"
        by blast
      with False ge show ?thesis by (simp add: Let_def flip: \<open>add_mset p (points r') = points r\<close>)
    qed
  qed
qed

subsection \<open>Nearest neighbour on a tree that satisfies the invariant\<close>

text \<open>
  The running best only moves towards the target, and a subtree is skipped only when
  the splitting line is at least as far from the target as the running best. So the
  search on a tree that satisfies the invariant returns a stored point of least distance.
\<close>

lemma below_best_improve:
  "\<not> below_best x best \<Longrightarrow> \<not> below_best x (improve target best n)"
  by (induction x best rule: below_best.induct) (auto simp: improve_None improve_Some)

lemma below_best_improve_self:
  "\<not> below_best (euclid (fst n) target) (improve target best n)"
  by (induction "euclid (fst n) target" best rule: below_best.induct)
    (auto simp: improve_None improve_Some)

lemma below_best_foldl:
  "\<not> below_best x best \<Longrightarrow> \<not> below_best x (foldl (improve target) best vs)"
  by (induction vs arbitrary: best) (auto simp: below_best_improve)

lemma below_best_recursive:
  "\<not> below_best x best \<Longrightarrow> \<not> below_best x (nearest_neighbor_recursive t target depth best)"
  by (simp add: nearest_neighbor_recursive_foldl below_best_foldl)

lemma below_best_mono: "\<not> below_best x best \<Longrightarrow> x \<le> y \<Longrightarrow> \<not> below_best y best"
  by (induction x best rule: below_best.induct) auto

lemma coord_le_euclid: "\<bar>coord n axis - coord target axis\<bar> \<le> euclid n target"
proof -
  have "\<bar>fst n - fst target\<bar> \<le> euclid n target"
    using real_sqrt_sum_squares_ge1 [of "\<bar>fst n - fst target\<bar>" "snd n - snd target"]
    by (simp add: euclid_def)
  moreover have "\<bar>snd n - snd target\<bar> \<le> euclid n target"
    using real_sqrt_sum_squares_ge2 [of "\<bar>snd n - snd target\<bar>" "fst n - fst target"]
    by (simp add: euclid_def)
  ultimately show ?thesis by (simp add: coord_def)
qed

lemma nearest_neighbor_recursive_least:
  "partition_invariant t depth \<Longrightarrow> n \<in> set (nodes t) \<Longrightarrow>
   \<not> below_best (euclid (fst n) target) (nearest_neighbor_recursive t target depth best)"
proof (induction t arbitrary: depth best n)
  case NoNode
  then show ?case by simp
next
  case (KDNode q e l r)
  let ?axis = "depth mod 2"
  let ?best1 = "improve target best (q, e)"
  let ?gap = "\<bar>coord target ?axis - coord q ?axis\<bar>"
  from KDNode.prems(1) have
    less: "\<forall>n \<in> set (nodes l). coord (fst n) ?axis < coord q ?axis" and
    geq: "\<forall>n \<in> set (nodes r). coord q ?axis \<le> coord (fst n) ?axis" and
    il: "partition_invariant l (depth + 1)" and ir: "partition_invariant r (depth + 1)"
    by (auto simp: list_all_iff)
  have root: "\<not> below_best (euclid q target) ?best1"
    using below_best_improve_self [of "(q, e)" target best] by simp
  from KDNode.prems(2) consider "n = (q, e)" | "n \<in> set (nodes l)" | "n \<in> set (nodes r)"
    by auto
  note cases_n = this
  show ?case
  proof (cases "coord target ?axis < coord q ?axis")
    case True
    let ?best2 = "nearest_neighbor_recursive l target (depth + 1) ?best1"
    have near: "\<not> below_best (euclid (fst n) target) ?best2" if "n \<in> set (nodes l)"
      using KDNode.IH(1) [OF il that] .
    have here: "\<not> below_best (euclid q target) ?best2"
      using root by (rule below_best_recursive)
    show ?thesis
    proof (cases "below_best ?gap ?best2")
      case far: True
      have "\<not> below_best (euclid (fst n) target) (nearest_neighbor_recursive r target (depth + 1) ?best2)"
        using cases_n
      proof cases
        case 1
        with here show ?thesis by (simp add: below_best_recursive)
      next
        case 2
        with near show ?thesis by (simp add: below_best_recursive)
      next
        case 3
        then show ?thesis using KDNode.IH(2) [OF ir] by simp
      qed
      with True far show ?thesis by (simp add: Let_def)
    next
      case skip: False
      have "\<not> below_best (euclid (fst n) target) ?best2"
        using cases_n
      proof cases
        case 1
        with here show ?thesis by simp
      next
        case 2
        with near show ?thesis by simp
      next
        case 3
        with geq have "coord q ?axis \<le> coord (fst n) ?axis" by blast
        with True have "?gap \<le> \<bar>coord (fst n) ?axis - coord target ?axis\<bar>" by simp
        also have "\<dots> \<le> euclid (fst n) target" by (rule coord_le_euclid)
        finally show ?thesis using skip below_best_mono by blast
      qed
      with True skip show ?thesis by (simp add: Let_def)
    qed
  next
    case False
    let ?best2 = "nearest_neighbor_recursive r target (depth + 1) ?best1"
    have near: "\<not> below_best (euclid (fst n) target) ?best2" if "n \<in> set (nodes r)"
      using KDNode.IH(2) [OF ir that] .
    have here: "\<not> below_best (euclid q target) ?best2"
      using root by (rule below_best_recursive)
    show ?thesis
    proof (cases "below_best ?gap ?best2")
      case far: True
      have "\<not> below_best (euclid (fst n) target) (nearest_neighbor_recursive l target (depth + 1) ?best2)"
        using cases_n
      proof cases
        case 1
        with here show ?thesis by (simp add: below_best_recursive)
      next
        case 2
        then show ?thesis using KDNode.IH(1) [OF il] by simp
      next
        case 3
        with near show ?thesis by (simp add: below_best_recursive)
      qed
      with False far show ?thesis by (simp add: Let_def)
    next
      case skip: False
      have "\<not> below_best (euclid (fst n) target) ?best2"
        using cases_n
      proof cases
        case 1
        with here show ?thesis by simp
      next
        case 2
        with less have "coord (fst n) ?axis < coord q ?axis" by blast
        with False have "?gap \<le> \<bar>coord (fst n) ?axis - coord target ?axis\<bar>" by simp
        also have "\<dots> \<le> euclid (fst n) target" by (rule coord_le_euclid)
        finally show ?thesis using skip below_best_mono by blast
      next
        case 3
        with near show ?thesis by simp
      qed
      with False skip show ?thesis by (simp add: Let_def)
    qed
  qed
qed

lemma set_nearest_neighbor_visit:
  "n \<in> set (nearest_neighbor_visit t target depth best) \<Longrightarrow> n \<in> set (nodes t)"
proof (induction t arbitrary: depth best)
  case NoNode
  then show ?case by simp
next
  case (KDNode q e l r)
  from KDNode.prems have
    "n = (q, e) \<or> (\<exists>d b. n \<in> set (nearest_neighbor_visit l target d b)) \<or>
      (\<exists>d b. n \<in> set (nearest_neighbor_visit r target d b))"
    by (auto simp: Let_def split: if_splits)
  with KDNode.IH show ?case by auto
qed

lemma nearest_neighbor_on_invariant:
  assumes "partition_invariant (root_node self) 0" and "root_node self \<noteq> NoNode"
  shows "\<exists>q e d. fst (nearest_neighbor self target) = Some (q, e, d) \<and>
           (q, e) \<in> set (nodes (root_node self)) \<and> d = euclid q target \<and>
           (\<forall>n \<in> set (nodes (root_node self)). d \<le> euclid (fst n) target)"
proof -
  let ?vs = "nearest_neighbor_visit (root_node self) target 0 None"
  let ?res = "nearest_neighbor_recursive (root_node self) target 0 None"
  have res: "fst (nearest_neighbor self target) = ?res"
    using assms(2) by (simp add: nearest_neighbor_def)
  have "?vs \<noteq> []" using assms(2) by (cases "root_node self") (auto simp: Let_def)
  then have "?res \<noteq> None"
    by (simp add: nearest_neighbor_recursive_foldl foldl_improve_None)
  then obtain q e d where b: "?res = Some (q, e, d)" by (cases ?res) auto
  then have "foldl (improve target) None ?vs = Some (q, e, d)"
    by (simp add: nearest_neighbor_recursive_foldl)
  from foldl_improve_first_least [OF this] obtain i where
    "i < length ?vs" "?vs ! i = (q, e)" "d = euclid q target" by blast
  then have "(q, e) \<in> set ?vs" by (metis nth_mem)
  then have mem: "(q, e) \<in> set (nodes (root_node self))"
    using set_nearest_neighbor_visit by blast
  have "d \<le> euclid (fst n) target" if "n \<in> set (nodes (root_node self))" for n
    using nearest_neighbor_recursive_least [OF assms(1) that, of target None] b by simp
  with res b mem \<open>d = euclid q target\<close> show ?thesis by simp
qed

section \<open>The claims\<close>

subsection \<open>Claims that the code does not meet\<close>

text \<open>
  Claim C1: after every sequence of inserts and deletes that starts from the empty tree,
  the axis-alternating partition invariant holds.

  It fails on the run \<open>example_updates\<close>. The deletion of the root \<open>(0, 0)\<close> asks
  \<open>find_min\<close> for the minimum along axis 0 of the right subtree, gets \<open>(5, 5)\<close>
  although \<open>(1, 6)\<close> is stored there, and leaves \<open>(1, 6)\<close> in the right subtree of a
  root whose first coordinate is 5. (Insertion alone keeps the invariant: lemma
  \<open>partition_invariant_insert_all\<close>. A deletion at a node with a left child only
  breaks it as well, even where \<open>find_min\<close> is right: lemma \<open>run_left_only\<close>.)
\<close>

theorem delete_breaks_partition_invariant:
  "run KDTree_init example_updates = Inr after_delete \<and>
   \<not> partition_invariant (root_node after_delete) 0"
  by (simp add: run_example) (simp add: after_delete_def coord_def)

text \<open>
  Claim C2: on every non-empty subtree of a tree that satisfies the invariant, and for
  either axis, \<open>find_min\<close> returns a node of the subtree with the least coordinate along
  that axis.

  For axis 0 the search only ever follows \<open>left\<close>, whatever the depth of the node. On
  the right subtree of \<open>after_inserts\<close>, whose root splits along axis 1, it answers
  \<open>(5, 5)\<close> while \<open>(1, 6)\<close> is in the subtree. (For axis 1 the result is least:
  lemma \<open>find_min_axis1_least\<close>; the result is always a node of the subtree: lemma
  \<open>find_min_member\<close>.)
\<close>

theorem find_min_misses_minimum_along_x:
  "insert_all KDTree_init example_points = after_inserts \<and>
   partition_invariant (root_node after_inserts) 0 \<and>
   find_min (right (root_node after_inserts)) 0 = Inr ((5, 5), ''b'') \<and>
   ((1, 6), ''c'') \<in> set (nodes (right (root_node after_inserts))) \<and>
   coord (1, 6) 0 < coord (5, 5) 0"
  by (simp add: insert_all_example) (simp add: after_inserts_def coord_def)

text \<open>
  Claim C3: on a tree built by inserts and deletes that has n nodes, one of which stores
  p, \<open>delete p\<close> returns true and removes one node, so that a range search over an
  unbounded rectangle finds n - 1 pairs afterwards.

  After the run \<open>example_updates\<close> the tree stores \<open>(1, 6)\<close> to the right of the
  root \<open>(5, 5)\<close>; the deletion looks for it to the left, returns false and removes
  nothing: a rectangle around both points still finds two pairs. (On a tree that
  satisfies the invariant a stored point is found and one occurrence of it removed:
  lemma \<open>delete_recursive_present\<close>.)
\<close>

theorem delete_misses_stored_point:
  "run KDTree_init example_updates = Inr after_delete \<and>
   (1, 6) \<in> fst ` set (nodes (root_node after_delete)) \<and>
   delete after_delete (1, 6) = Inr (False, after_delete) \<and>
   encloses (0, 0) (9, 9) (root_node after_delete) \<and>
   length (fst (range_search after_delete (0, 0) (9, 9))) = 2"
  by (simp add: run_example)
    (simp add: after_delete_def coord_def delete_def encloses_def in_rectangle_def range_search_def)

text \<open>
  Claim C4: on a tree reachable by inserts and deletes, a stored point is in the result
  of a range search if and only if it lies in the closed rectangle.

  After the run \<open>example_updates\<close> the point \<open>(1, 6)\<close> is stored and the rectangle
  from \<open>(1, 6)\<close> to \<open>(1, 6)\<close> contains it, but the search does not descend to the
  right of the root \<open>(5, 5)\<close> and returns nothing. (On a tree that satisfies the
  invariant the result is exactly the stored pairs inside the rectangle: lemma
  \<open>range_search_recursive_filter\<close>.)
\<close>

theorem range_search_misses_stored_point:
  "run KDTree_init example_updates = Inr after_delete \<and>
   ((1, 6), ''c'') \<in> set (nodes (root_node after_delete)) \<and>
   in_rectangle (1, 6) (1, 6) (1, 6) \<and>
   fst (range_search after_delete (1, 6) (1, 6)) = []"
  by (simp add: run_example)
    (simp add: after_delete_def coord_def in_rectangle_def range_search_def)

text \<open>
  Claim C5: on a tree reachable by inserts and deletes, the nearest-neighbour search
  returns nothing on the empty tree and otherwise a stored point, its payload and its
  Euclidean distance to the target, which is at most the distance of every stored point.

  After the run \<open>example_updates\<close> and for the target \<open>(1, 5)\<close> the search returns
  the root \<open>(5, 5)\<close> at distance 4 and skips the right subtree, where \<open>(1, 6)\<close> is
  stored at distance 1. (On a non-empty tree that satisfies the invariant the search
  returns a stored point of least distance: lemma \<open>nearest_neighbor_on_invariant\<close>;
  on the empty tree it returns nothing, by the first branch of \<open>nearest_neighbor\<close>.)
\<close>

theorem nearest_neighbor_not_nearest:
  "run KDTree_init example_updates = Inr after_delete \<and>
   fst (nearest_neighbor after_delete (1, 5)) = Some ((5, 5), ''b'', 4) \<and>
   ((1, 6), ''c'') \<in> set (nodes (root_node after_delete)) \<and>
   euclid (1, 6) (1, 5) = 1"
  by (simp add: run_example)
    (simp add: after_delete_def coord_def nearest_neighbor_def improve_def euclid_def sqrt_16)

subsection \<open>Claims that the code meets\<close>

text \<open>
  Claim C6: when no node of the tree stores a point equal to p, \<open>delete p\<close> returns
  false and the tree afterwards is the tree before: same structure, same points, same
  payloads. This holds for every tree, whether or not it satisfies the invariant.
\<close>

theorem delete_absent_point:
  "p \<notin> fst ` set (nodes (root_node self)) \<Longrightarrow> delete self p = Inr (False, self)"
  by (simp add: delete_def delete_recursive_absent)

theorem delete_absent_point_witness:
  "(100, 100) \<notin> fst ` set (nodes (root_node after_inserts)) \<and>
   delete after_inserts (100, 100) = Inr (False, after_inserts)"
proof -
  have h: "(100, 100) \<notin> fst ` set (nodes (root_node after_inserts))"
    by (simp add: after_inserts_def)
  show ?thesis using h delete_absent_point [OF h] by simp
qed

text \<open>
  Claim C7: an insertion always succeeds and adds exactly one node. A range search over
  a rectangle that leaves no stored point outside, as the unbounded one does, returns
  as many pairs as points were inserted into the empty tree (and exactly those pairs),
  distinct or not; one more insertion, of a new point or of one that is stored already,
  makes that number one larger; and at a node whose coordinate along its axis equals
  that of the inserted point the insertion goes on in the right subtree and leaves the
  left one as it is.
\<close>

theorem insert_adds_one_node:
  "(encloses min_point max_point (root_node (insert_all KDTree_init ps)) \<longrightarrow>
      length (fst (range_search (insert_all KDTree_init ps) min_point max_point)) = length ps \<and>
      set (fst (range_search (insert_all KDTree_init ps) min_point max_point)) = set ps) \<and>
   (encloses min_point max_point (root_node (insert_kd self p d)) \<longrightarrow>
      length (fst (range_search (insert_kd self p d) min_point max_point)) =
        Suc (length (fst (range_search self min_point max_point)))) \<and>
   (coord p (depth mod 2) = coord q (depth mod 2) \<longrightarrow>
      insert_recursive (KDNode q e l r) p d depth =
        KDNode q e l (insert_recursive r p d (depth + 1)))"
proof (intro conjI impI)
  assume a: "encloses min_point max_point (root_node (insert_all KDTree_init ps))"
  have "fst (range_search (insert_all KDTree_init ps) min_point max_point) =
          nodes (root_node (insert_all KDTree_init ps))"
    by (simp add: range_search_def range_search_recursive_encloses [OF a])
  then show "length (fst (range_search (insert_all KDTree_init ps) min_point max_point)) = length ps"
    and "set (fst (range_search (insert_all KDTree_init ps) min_point max_point)) = set ps"
    by (simp_all add: length_nodes_insert_all set_nodes_insert_all KDTree_init_def)
next
  assume b: "encloses min_point max_point (root_node (insert_kd self p d))"
  then have b': "encloses min_point max_point (insert_recursive (root_node self) p d 0)"
    by (simp add: insert_kd_def)
  have c: "encloses min_point max_point (root_node self)"
    using encloses_insert [OF b'] .
  show "length (fst (range_search (insert_kd self p d) min_point max_point)) =
        Suc (length (fst (range_search self min_point max_point)))"
    by (simp add: range_search_def insert_kd_def range_search_recursive_encloses [OF b']
        range_search_recursive_encloses [OF c] length_nodes_insert)
next
  assume "coord p (depth mod 2) = coord q (depth mod 2)"
  then show "insert_recursive (KDNode q e l r) p d depth =
        KDNode q e l (insert_recursive r p d (depth + 1))"
    by (simp add: Let_def)
qed

theorem insert_adds_one_node_witness:
  "encloses (0, 0) (9, 9) (root_node (insert_all KDTree_init example_points)) \<and>
   length (fst (range_search (insert_all KDTree_init example_points) (0, 0) (9, 9))) = 3 \<and>
   encloses (0, 0) (9, 9) (root_node (insert_kd after_inserts (5, 5) ''d'')) \<and>
   length (fst (range_search (insert_kd after_inserts (5, 5) ''d'') (0, 0) (9, 9))) = 4 \<and>
   coord (5, 5) (1 mod 2) = coord (5, 5) (1 mod 2) \<and>
   insert_recursive (KDNode (5, 5) ''b'' NoNode NoNode) (5, 5) ''d'' 1 =
     KDNode (5, 5) ''b'' NoNode (KDNode (5, 5) ''d'' NoNode NoNode)"
proof -
  have h1: "encloses (0, 0) (9, 9) (root_node (insert_all KDTree_init example_points))"
    by (simp add: insert_all_example)
      (simp add: after_inserts_def encloses_def in_rectangle_def)
  have h2: "encloses (0, 0) (9, 9) (root_node (insert_kd after_inserts (5, 5) ''d''))"
    by (simp add: after_inserts_def insert_kd_def coord_def encloses_def in_rectangle_def)
  have h3: "coord (5, 5) (1 mod 2) = coord (5, 5) (1 mod 2)"
    by simp
  have n: "length (fst (range_search after_inserts (0, 0) (9, 9))) = 3"
    by (simp add: after_inserts_def range_search_def coord_def in_rectangle_def)
  have m: "length example_points = 3"
    by (simp add: example_points_def)
  show ?thesis
    using h1 h2 h3 n m
      insert_adds_one_node [where ps = example_points and min_point = "(0, 0)"
        and max_point = "(9, 9)" and self = after_inserts and p = "(5, 5)" and d = "''d''"
        and depth = 1 and q = "(5, 5)" and e = "''b''" and l = NoNode and r = NoNode]
    by simp
qed

text \<open>
  Claim C8: for an inverted rectangle, one with a component of \<open>min_point\<close> strictly
  above that of \<open>max_point\<close>, the range search returns the empty list on every tree;
  it raises nothing.
\<close>

theorem range_search_inverted_rectangle:
  "fst max_point < fst min_point \<or> snd max_point < snd min_point \<Longrightarrow>
   fst (range_search self min_point max_point) = []"
  by (simp add: range_search_def range_search_recursive_inverted)

theorem range_search_inverted_rectangle_witness:
  "(fst ((2, 9)::point) < fst ((4, 0)::point) \<or> snd ((2, 9)::point) < snd ((4, 0)::point)) \<and>
   fst (range_search after_inserts (4, 0) (2, 9)) = []"
proof -
  have h: "fst ((2, 9)::point) < fst ((4, 0)::point) \<or> snd ((2, 9)::point) < snd ((4, 0)::point)"
    by simp
  show ?thesis using h range_search_inverted_rectangle [OF h, of after_inserts] by simp
qed

text \<open>
  Claim C9: the two queries are pure. The tree object after \<open>range_search\<close> and after
  \<open>nearest_neighbor\<close> is the tree object before, with the same nodes, points and
  payloads, for every tree and every argument.
\<close>

theorem queries_leave_tree_unchanged:
  "snd (range_search self min_point max_point) = self \<and>
   snd (nearest_neighbor self target) = self"
  by (simp add: range_search_def nearest_neighbor_def)

text \<open>
  Claim C10: the nearest-neighbour search is deterministic. Its result depends on the
  nodes of the tree and on the target only, and when it returns a point, that point is
  the first node in the visiting order (near child first, far child when the splitting
  line is closer than the running best) whose distance to the target is least among the
  visited nodes: every node visited before it is strictly farther away.
\<close>

theorem nearest_neighbor_first_visited:
  "(root_node self = root_node other \<longrightarrow>
      fst (nearest_neighbor self target) = fst (nearest_neighbor other target)) \<and>
   (fst (nearest_neighbor self target) = Some (q, e, d) \<longrightarrow>
      (\<exists>i < length (nearest_neighbor_visit (root_node self) target 0 None).
         nearest_neighbor_visit (root_node self) target 0 None ! i = (q, e) \<and>
         d = euclid q target \<and>
         (\<forall>j < i. d < euclid (fst (nearest_neighbor_visit (root_node self) target 0 None ! j)) target) \<and>
         (\<forall>j < length (nearest_neighbor_visit (root_node self) target 0 None).
            d \<le> euclid (fst (nearest_neighbor_visit (root_node self) target 0 None ! j)) target)))"
proof (intro conjI impI)
  assume "root_node self = root_node other"
  then show "fst (nearest_neighbor self target) = fst (nearest_neighbor other target)"
    by (simp add: nearest_neighbor_def)
next
  assume a: "fst (nearest_neighbor self target) = Some (q, e, d)"
  then have "root_node self \<noteq> NoNode"
    by (auto simp: nearest_neighbor_def split: if_splits)
  with a have "foldl (improve target) None (nearest_neighbor_visit (root_node self) target 0 None)
      = Some (q, e, d)"
    by (simp add: nearest_neighbor_def nearest_neighbor_recursive_foldl)
  then show "\<exists>i < length (nearest_neighbor_visit (root_node self) target 0 None).
         nearest_neighbor_visit (root_node self) target 0 None ! i = (q, e) \<and>
         d = euclid q target \<and>
         (\<forall>j < i. d < euclid (fst (nearest_neighbor_visit (root_node self) target 0 None ! j)) target) \<and>
         (\<forall>j < length (nearest_neighbor_visit (root_node self) target 0 None).
            d \<le> euclid (fst (nearest_neighbor_visit (root_node self) target 0 None ! j)) target)"
    by (rule foldl_improve_first_least)
qed

theorem nearest_neighbor_first_visited_witness:
  "root_node tie_example = root_node tie_example \<and>
   fst (nearest_neighbor tie_example (1, 0)) = Some ((0, 0), ''a'', 1) \<and>
   nearest_neighbor_visit (root_node tie_example) (1, 0) 0 None =
     [((0, 0), ''a''), ((2, 0), ''b'')] \<and>
   euclid (2, 0) (1, 0) = 1 \<and>
   (\<exists>i < length (nearest_neighbor_visit (root_node tie_example) (1, 0) 0 None).
      nearest_neighbor_visit (root_node tie_example) (1, 0) 0 None ! i = ((0, 0), ''a'') \<and>
      1 = euclid (0, 0) (1, 0) \<and>
      (\<forall>j < i. 1 < euclid (fst (nearest_neighbor_visit (root_node tie_example) (1, 0) 0 None ! j)) (1, 0)) \<and>
      (\<forall>j < length (nearest_neighbor_visit (root_node tie_example) (1, 0) 0 None).
         1 \<le> euclid (fst (nearest_neighbor_visit (root_node tie_example) (1, 0) 0 None ! j)) (1, 0)))"
proof -
  have h: "fst (nearest_neighbor tie_example (1, 0)) = Some ((0, 0), ''a'', 1)"
    by (simp add: tie_example_def nearest_neighbor_def improve_def euclid_def coord_def)
  have v: "nearest_neighbor_visit (root_node tie_example) (1, 0) 0 None =
      [((0, 0), ''a''), ((2, 0), ''b'')]"
    by (simp add: tie_example_def improve_def euclid_def coord_def)
  have e: "euclid (2, 0) (1, 0) = 1"
    by (simp add: euclid_def)
  show ?thesis
    using h v e
      nearest_neighbor_first_visited [of tie_example tie_example "(1, 0)" "(0, 0)" "''a''" 1]
    by simp
qed

end
